theory Spec2Isabelle
  imports Main
begin

section \<open>Values shared by the two programs\<close>

text \<open>
  A Python \<open>bytes\<close> value is a list of bytes, which is what an Isabelle \<open>string\<close> is.
  A Python \<open>str\<close> is represented by its UTF-8 encoding: two \<open>str\<close> values are equal
  exactly when their encodings are, so \<open>v in ("cats", "dogs")\<close> is a comparison of
  byte lists, encoding a \<open>str\<close> (what redis-py does with the argument of \<open>lpush\<close>)
  keeps the list, and \<open>val.decode("utf-8")\<close> keeps it too when the bytes are
  well-formed UTF-8 and raises otherwise.
\<close>

type_synonym str = string
type_synonym bytes = string

text \<open>An exception: the name of its class and the text \<open>str(e)\<close> gives.\<close>

datatype exn = Exn (exn_class: string) (str: string)

definition cats :: str where
  "cats = ''cats''"

definition dogs :: str where
  "dogs = ''dogs''"

text \<open>The tuple \<open>("cats", "dogs")\<close> of both programs.\<close>

definition options :: "str list" where
  "options = [cats, dogs]"

subsection \<open>UTF-8\<close>

text \<open>
  The strict UTF-8 decoder as an automaton over the bytes. A state \<open>(n, lo, hi)\<close>
  says that \<open>n\<close> continuation bytes are still expected and that the next byte has to
  lie in \<open>lo..hi\<close>; the bounds after the lead bytes E0, ED, F0 and F4 exclude
  overlong forms, surrogates and code points above U+10FFFF.
\<close>

definition utf8_lead :: "nat \<Rightarrow> (nat \<times> nat \<times> nat) option" where
  "utf8_lead b =
     (if b < 0x80 then Some (0, 0x80, 0xBF)
      else if 0xC2 \<le> b \<and> b \<le> 0xDF then Some (1, 0x80, 0xBF)
      else if b = 0xE0 then Some (2, 0xA0, 0xBF)
      else if b = 0xED then Some (2, 0x80, 0x9F)
      else if 0xE1 \<le> b \<and> b \<le> 0xEF then Some (2, 0x80, 0xBF)
      else if b = 0xF0 then Some (3, 0x90, 0xBF)
      else if 0xF1 \<le> b \<and> b \<le> 0xF3 then Some (3, 0x80, 0xBF)
      else if b = 0xF4 then Some (3, 0x80, 0x8F)
      else None)"

fun utf8_step :: "(nat \<times> nat \<times> nat) option \<Rightarrow> nat \<Rightarrow> (nat \<times> nat \<times> nat) option" where
  "utf8_step None b = None"
| "utf8_step (Some (0, lo, hi)) b = utf8_lead b"
| "utf8_step (Some (Suc n, lo, hi)) b =
     (if lo \<le> b \<and> b \<le> hi then Some (n, 0x80, 0xBF) else None)"

definition utf8_valid :: "bytes \<Rightarrow> bool" where
  "utf8_valid bs =
     (case foldl utf8_step (Some (0, 0x80, 0xBF)) (map of_char bs) of
        None \<Rightarrow> False
      | Some (n, lo, hi) \<Rightarrow> n = 0)"

text \<open>\<open>s.encode("utf-8")\<close>, applied by redis-py to a \<open>str\<close> argument.\<close>

definition encode :: "str \<Rightarrow> bytes" where
  "encode s = s"

text \<open>
  \<open>val.decode("utf-8")\<close>. The text of the UnicodeDecodeError names the offending byte
  and its position in Python; it is shortened here.
\<close>

definition decode :: "bytes \<Rightarrow> exn + str" where
  "decode bs =
     (if utf8_valid bs then Inr bs
      else Inl (Exn ''UnicodeDecodeError'' ''utf-8 codec cannot decode bytes''))"

section \<open>The queue store\<close>

text \<open>
  The Redis database as the two programs use it: list values under string keys, a key
  that is not there being the empty list. Index 0 is the head of a list. Every command
  takes what the connection does to it: \<open>None\<close> when the store answers, \<open>Some e\<close>
  when the client raises \<open>e\<close> (the store is unreachable), in which case the store is
  as it was.
\<close>

type_synonym redis = "string \<Rightarrow> bytes list"

definition no_lists :: redis where
  "no_lists = (\<lambda>name. [])"

definition ping :: "exn option \<Rightarrow> redis \<Rightarrow> (exn + bool) \<times> redis" where
  "ping fault rd = (case fault of Some e \<Rightarrow> (Inl e, rd) | None \<Rightarrow> (Inr True, rd))"

text \<open>LPUSH puts the value at the head and answers with the new length.\<close>

definition lpush :: "exn option \<Rightarrow> redis \<Rightarrow> string \<Rightarrow> str \<Rightarrow> (exn + nat) \<times> redis" where
  "lpush fault rd name v =
     (case fault of
        Some e \<Rightarrow> (Inl e, rd)
      | None \<Rightarrow> (Inr (Suc (length (rd name))), rd(name := encode v # rd name)))"

text \<open>
  BRPOP without a timeout removes the value at the tail and answers with the key and
  the value. On an empty list it blocks until a value is pushed: \<open>Inr None\<close> is the
  call that has not returned.
\<close>

definition brpop :: "exn option \<Rightarrow> redis \<Rightarrow> string \<Rightarrow> (exn + (bytes \<times> bytes) option) \<times> redis" where
  "brpop fault rd name =
     (case fault of
        Some e \<Rightarrow> (Inl e, rd)
      | None \<Rightarrow>
          if rd name = [] then (Inr None, rd)
          else (Inr (Some (encode name, last (rd name))), rd(name := butlast (rd name))))"

section \<open>vote/app.py\<close>

text \<open>
  \<open>request.form\<close> is a multi-dict: \<open>form.get\<close> gives the first value of a field and
  \<open>None\<close> when the field is absent, which is \<open>map_of\<close> on the list of fields.
\<close>

type_synonym form = "(str \<times> str) list"

text \<open>
  A response is a redirect (status and location) or a JSON object (status and
  members). A view that returns a dict answers 200; \<open>redirect\<close> answers 302.
\<close>

datatype response = Redirect nat str | Json nat "(str \<times> str) list"

definition redirect :: "str \<Rightarrow> response" where
  "redirect location = Redirect 302 location"

definition health :: "exn option \<Rightarrow> redis \<Rightarrow> response \<times> redis" where
  "health fault rd =
     (case ping fault rd of
        (Inr ok, rd') \<Rightarrow> (Json 200 [(''status'', ''ok'')], rd')
      | (Inl e, rd') \<Rightarrow> (Json 500 [(''status'', ''error''), (''detail'', str e)], rd'))"

text \<open>
  The handler of POST /vote answers with a response or lets the exception of
  \<open>r.lpush\<close> out (\<open>Inl\<close>): there is no \<open>try\<close> in it.
\<close>

definition vote :: "exn option \<Rightarrow> redis \<Rightarrow> form \<Rightarrow> (exn + response) \<times> redis" where
  "vote fault rd fm =
     (case map_of fm ''vote'' of
        None \<Rightarrow> (Inr (redirect ''/''), rd)
      | Some v \<Rightarrow>
          if v \<notin> set options then (Inr (redirect ''/''), rd)
          else (case lpush fault rd ''votes'' v of
                  (Inl e, rd') \<Rightarrow> (Inl e, rd')
                | (Inr n, rd') \<Rightarrow> (Inr (redirect ''/''), rd')))"

section \<open>worker/worker.py\<close>

subsection \<open>The tally table\<close>

text \<open>
  The relation \<open>votes(option TEXT PRIMARY KEY, count INTEGER NOT NULL DEFAULT 0)\<close>:
  at most one row for an option, so a map from the option to its count. INTEGER is
  PostgreSQL's 32-bit signed integer, and arithmetic that leaves its range does not
  wrap: the statement fails with "integer out of range".
\<close>

type_synonym table = "str \<rightharpoonup> int"

definition no_rows :: table where
  "no_rows = Map.empty"

definition INTEGER_MAX :: int where
  "INTEGER_MAX = 2147483647"

text \<open>The two statements the worker sends.\<close>

datatype stmt =
    CREATE_TABLE_IF_NOT_EXISTS
  | INSERT_ON_CONFLICT_UPDATE str

text \<open>
  What the server does with a statement; the relation is \<open>None\<close> as long as it has not
  been created. The texts of the errors are shortened.
\<close>

fun pg_execute :: "table option \<Rightarrow> stmt \<Rightarrow> exn + table option" where
  "pg_execute None CREATE_TABLE_IF_NOT_EXISTS = Inr (Some no_rows)"
| "pg_execute (Some t) CREATE_TABLE_IF_NOT_EXISTS = Inr (Some t)"
| "pg_execute None (INSERT_ON_CONFLICT_UPDATE choice) =
     Inl (Exn ''UndefinedTable'' ''relation votes does not exist'')"
| "pg_execute (Some t) (INSERT_ON_CONFLICT_UPDATE choice) =
     (case t choice of
        None \<Rightarrow> Inr (Some (t(choice \<mapsto> 1)))
      | Some c \<Rightarrow>
          if INTEGER_MAX < c + 1 then Inl (Exn ''NumericValueOutOfRange'' ''integer out of range'')
          else Inr (Some (t(choice \<mapsto> c + 1))))"

text \<open>
  The connection of the worker: the relation behind it and the statements the worker
  has passed to \<open>cur.execute\<close>, in order.
\<close>

record connection =
  votes :: "table option"
  issued :: "stmt list"

text \<open>
  \<open>cur.execute(statement)\<close>. The first component of the result is the exception raised,
  if any. \<open>fault\<close> is what the connection does to the call: with \<open>Some e\<close> the driver
  raises \<open>e\<close> and nothing reaches the relation (the connection is lost, or its
  transaction was left aborted by a statement that failed earlier, the worker never
  rolling back).
\<close>

definition execute :: "exn option \<Rightarrow> connection \<Rightarrow> stmt \<Rightarrow> exn option \<times> connection" where
  "execute fault c s =
     (let c' = c\<lparr>issued := issued c @ [s]\<rparr> in
      case fault of
        Some e \<Rightarrow> (Some e, c')
      | None \<Rightarrow>
          (case pg_execute (votes c') s of
             Inl e \<Rightarrow> (Some e, c')
           | Inr t \<Rightarrow> (None, c'\<lparr>votes := t\<rparr>)))"

text \<open>
  \<open>conn.commit()\<close> ends the transaction the statement opened. This connection is the
  only one looking at the relation, so what it wrote is what the relation holds.
\<close>

definition commit :: "connection \<Rightarrow> exn option \<times> connection" where
  "commit c = (None, c)"

definition ensure_table :: "exn option \<Rightarrow> connection \<Rightarrow> exn option \<times> connection" where
  "ensure_table fault c =
     (case execute fault c CREATE_TABLE_IF_NOT_EXISTS of
        (Some e, c') \<Rightarrow> (Some e, c')
      | (None, c') \<Rightarrow> commit c')"

definition increment_vote :: "exn option \<Rightarrow> connection \<Rightarrow> str \<Rightarrow> exn option \<times> connection" where
  "increment_vote fault c choice =
     (case execute fault c (INSERT_ON_CONFLICT_UPDATE choice) of
        (Some e, c') \<Rightarrow> (Some e, c')
      | (None, c') \<Rightarrow> commit c')"

subsection \<open>The main loop\<close>

text \<open>What the loop prints: \<open>counted: {choice}\<close> and \<open>Error processing vote: {e}\<close>.\<close>

datatype printout = Counted str | Error_processing_vote exn

record worker =
  store :: redis
  db :: connection
  printed :: "printout list"

text \<open>What the two connections do during one pass of the loop.\<close>

record env =
  redis_fault :: "exn option"
  db_fault :: "exn option"

definition quiet :: env where
  "quiet = \<lparr>redis_fault = None, db_fault = None\<rparr>"

text \<open>
  One pass of the body of \<open>while True\<close>; \<open>None\<close> is the pass that is still blocked in
  \<open>brpop\<close>. The \<open>except\<close> branch prints the exception (and sleeps a second, which
  changes nothing here).
\<close>

definition iteration :: "env \<Rightarrow> worker \<Rightarrow> worker option" where
  "iteration ev w =
     (case brpop (redis_fault ev) (store w) ''votes'' of
        (Inl e, rd) \<Rightarrow> Some (w\<lparr>store := rd, printed := printed w @ [Error_processing_vote e]\<rparr>)
      | (Inr None, rd) \<Rightarrow> None
      | (Inr (Some (k, val)), rd) \<Rightarrow>
          (case decode val of
             Inl e \<Rightarrow> Some (w\<lparr>store := rd, printed := printed w @ [Error_processing_vote e]\<rparr>)
           | Inr choice \<Rightarrow>
               if choice \<in> set options then
                 (case increment_vote (db_fault ev) (db w) choice of
                    (Some e, c) \<Rightarrow>
                      Some (w\<lparr>store := rd, db := c, printed := printed w @ [Error_processing_vote e]\<rparr>)
                  | (None, c) \<Rightarrow>
                      Some (w\<lparr>store := rd, db := c, printed := printed w @ [Counted choice]\<rparr>))
               else Some (w\<lparr>store := rd\<rparr>)))"

text \<open>
  The loop, one element of the list for each pass. The loop never ends; a finite list
  gives the state after that many passes, and a blocked pass with nobody pushing leaves
  the state as it is from then on.
\<close>

fun main_loop :: "env list \<Rightarrow> worker \<Rightarrow> worker" where
  "main_loop [] w = w"
| "main_loop (ev # evs) w =
     (case iteration ev w of None \<Rightarrow> w | Some w' \<Rightarrow> main_loop evs w')"

text \<open>
  The worker's operations on the table as a sequence: \<open>ensure_table\<close> and passes of
  the loop, in any order and number.
\<close>

datatype worker_op = Ensure_table "exn option" | Iteration env

fun apply_op :: "worker \<Rightarrow> worker_op \<Rightarrow> worker" where
  "apply_op w (Ensure_table fault) = w\<lparr>db := snd (ensure_table fault (db w))\<rparr>"
| "apply_op w (Iteration ev) = (case iteration ev w of None \<Rightarrow> w | Some w' \<Rightarrow> w')"

definition run_ops :: "worker \<Rightarrow> worker_op list \<Rightarrow> worker" where
  "run_ops w ops = foldl apply_op w ops"

subsection \<open>Reading the state\<close>

text \<open>The rows behind a connection; a relation that does not exist has none.\<close>

definition rows :: "connection \<Rightarrow> table" where
  "rows c = (case votes c of None \<Rightarrow> no_rows | Some t \<Rightarrow> t)"

text \<open>The count of an option, a missing row read as 0.\<close>

definition tally :: "table \<Rightarrow> str \<Rightarrow> int" where
  "tally t opt = (case t opt of None \<Rightarrow> 0 | Some n \<Rightarrow> n)"


section \<open>The two programs on one queue\<close>

text \<open>
  The intake and one worker on the same store, with the store answering: \<open>Push v\<close> is
  a POST /vote whose form has the one field \<open>vote = v\<close>, \<open>Pop\<close> is the worker's
  \<open>r.brpop("votes")\<close>. The state is the values the worker has received so far, in the
  order it received them, and the store. A \<open>Pop\<close> on the empty list waits and
  receives nothing.
\<close>

datatype event = Push str | Pop

fun step :: "bytes list \<times> redis \<Rightarrow> event \<Rightarrow> bytes list \<times> redis" where
  "step (popped, rd) (Push v) = (popped, snd (vote None rd [(''vote'', v)]))"
| "step (popped, rd) Pop =
     (case brpop None rd ''votes'' of
        (Inr (Some (k, val)), rd') \<Rightarrow> (popped @ [val], rd')
      | (Inr None, rd') \<Rightarrow> (popped, rd')
      | (Inl e, rd') \<Rightarrow> (popped, rd'))"

definition run :: "redis \<Rightarrow> event list \<Rightarrow> bytes list \<times> redis" where
  "run rd evs = foldl step ([], rd) evs"

text \<open>The votes submitted, in the order of submission.\<close>

fun pushed :: "event list \<Rightarrow> str list" where
  "pushed [] = []"
| "pushed (Push v # evs) = v # pushed evs"
| "pushed (Pop # evs) = pushed evs"

section \<open>Small states to run the programs on\<close>

text \<open>A connection whose relation exists and is empty, and a worker that has printed
  nothing, with the given list under \<open>votes\<close> (head first) and the given connection.\<close>

definition fresh_db :: connection where
  "fresh_db = \<lparr>votes = Some no_rows, issued = []\<rparr>"

definition worker_on :: "bytes list \<Rightarrow> connection \<Rightarrow> worker" where
  "worker_on q c = \<lparr>store = no_lists(''votes'' := q), db = c, printed = []\<rparr>"

section \<open>Facts about the values\<close>

lemma in_options: "x \<in> set options \<longleftrightarrow> x = ''cats'' \<or> x = ''dogs''"
  by (auto simp: options_def cats_def dogs_def)

lemma decode_Inr: "decode bs = Inr s \<Longrightarrow> s = bs"
  by (auto simp: decode_def split: if_splits)


text \<open>The definitions a run on a concrete state unfolds.\<close>

lemmas run_simps = iteration_def brpop_def decode_def utf8_valid_def utf8_lead_def in_options
  increment_vote_def execute_def commit_def ensure_table_def Let_def quiet_def no_lists_def no_rows_def
  cats_def dogs_def encode_def INTEGER_MAX_def tally_def rows_def fresh_db_def worker_on_def
  run_ops_def run_def vote_def lpush_def redirect_def

section \<open>The intake\<close>

text \<open>
  C6, as the handler has it. GET /health answers 200 with \<open>{status: "ok"}\<close> when the
  ping succeeds; when the ping raises \<open>e\<close> it answers 500 with
  \<open>{status: "error", detail: str(e)}\<close>, the detail being whatever text the exception
  carries. The store is the same afterwards in both cases (the handler has no handle on
  the tally table at all).
\<close>

theorem health_response:
  "health None rd = (Json 200 [(''status'', ''ok'')], rd) \<and>
   health (Some e) rd = (Json 500 [(''status'', ''error''), (''detail'', str e)], rd)"
  by (simp add: health_def ping_def)

theorem health_response_witness:
  "health None no_lists = (Json 200 [(''status'', ''ok'')], no_lists) \<and>
   health (Some (Exn ''ConnectionError'' ''Connection refused'')) no_lists =
     (Json 500 [(''status'', ''error''), (''detail'', ''Connection refused'')], no_lists)"
  using health_response [of no_lists "Exn ''ConnectionError'' ''Connection refused''"] by simp

text \<open>
  C6 as stated asks for a non-empty detail whatever the ping raises. An exception whose
  text is empty (a \<open>ResponseError\<close> built from an error reply without a message) gives
  the empty detail.
\<close>

theorem health_empty_detail_counterexample:
  "health (Some (Exn ''ResponseError'' [])) no_lists =
     (Json 500 [(''status'', ''error''), (''detail'', [])], no_lists)"
  by (simp add: health_def ping_def)

text \<open>
  C3. A POST /vote whose field \<open>vote\<close> is \<open>v\<close>: when \<open>v\<close> is one of the two options
  and the store takes the push, \<open>v\<close> is put on the list \<open>votes\<close>, which is one longer,
  nothing else in the store changes, and the answer is the redirect to \<open>/\<close>; when \<open>v\<close>
  is anything else the store is unchanged and the answer is the same redirect.
\<close>

theorem vote_queue_effect:
  assumes "map_of fm ''vote'' = Some v"
  shows "(v \<in> set options \<longrightarrow>
            fst (vote None rd fm) = Inr (Redirect 302 ''/'') \<and>
            snd (vote None rd fm) = rd(''votes'' := v # rd ''votes'') \<and>
            length (snd (vote None rd fm) ''votes'') = length (rd ''votes'') + 1) \<and>
         (v \<notin> set options \<longrightarrow> vote fault rd fm = (Inr (Redirect 302 ''/''), rd))"
  using assms by (simp add: vote_def lpush_def redirect_def encode_def)

theorem vote_queue_effect_witness:
  "map_of [(''vote'', ''cats'')] ''vote'' = Some ''cats'' \<and> ''cats'' \<in> set options \<and>
   fst (vote None no_lists [(''vote'', ''cats'')]) = Inr (Redirect 302 ''/'') \<and>
   snd (vote None no_lists [(''vote'', ''cats'')]) ''votes'' = [''cats''] \<and>
   map_of [(''vote'', ''elephants'')] ''vote'' = Some ''elephants'' \<and> ''elephants'' \<notin> set options \<and>
   vote None no_lists [(''vote'', ''elephants'')] = (Inr (Redirect 302 ''/''), no_lists)"
  using vote_queue_effect [where fm = "[(''vote'', ''cats'')]" and v = "''cats''" and rd = no_lists]
    vote_queue_effect [where fm = "[(''vote'', ''elephants'')]" and v = "''elephants''"
      and rd = no_lists and fault = None]
  by (simp add: in_options no_lists_def)

text \<open>
  C7. A valid vote whose push raises: the handler returns no response, the exception of
  the push is what comes out of it, and the store is as it was.
\<close>

theorem vote_push_error_propagates:
  assumes "map_of fm ''vote'' = Some v" and "v \<in> set options"
  shows "vote (Some e) rd fm = (Inl e, rd)"
  using assms by (simp add: vote_def lpush_def)

theorem vote_push_error_propagates_witness:
  "map_of [(''vote'', ''dogs'')] ''vote'' = Some ''dogs'' \<and> ''dogs'' \<in> set options \<and>
   vote (Some (Exn ''ConnectionError'' ''Connection refused'')) no_lists [(''vote'', ''dogs'')] =
     (Inl (Exn ''ConnectionError'' ''Connection refused''), no_lists)"
  using vote_push_error_propagates [where fm = "[(''vote'', ''dogs'')]" and v = "''dogs''"
      and rd = no_lists and e = "Exn ''ConnectionError'' ''Connection refused''"]
  by (simp add: in_options)

text \<open>
  C9. A POST /vote whose form has no field \<open>vote\<close>: the store is unchanged and the
  answer is the redirect to \<open>/\<close>, which is what the same form with an invalid vote in
  front gives.
\<close>

theorem vote_missing_field:
  assumes "''vote'' \<notin> fst ` set fm"
  shows "vote fault rd fm = (Inr (Redirect 302 ''/''), rd) \<and>
         (v \<notin> set options \<longrightarrow> vote fault rd fm = vote fault rd ((''vote'', v) # fm))"
proof -
  from assms have "map_of fm ''vote'' = None"
    by (simp add: map_of_eq_None_iff)
  then show ?thesis
    by (simp add: vote_def redirect_def)
qed

theorem vote_missing_field_witness:
  "''vote'' \<notin> fst ` set [(''name'', ''x'')] \<and> ''elephants'' \<notin> set options \<and>
   vote None no_lists [(''name'', ''x'')] = (Inr (Redirect 302 ''/''), no_lists) \<and>
   vote None no_lists [(''name'', ''x'')] =
     vote None no_lists [(''vote'', ''elephants''), (''name'', ''x'')]"
  using vote_missing_field [where fm = "[(''name'', ''x'')]" and v = "''elephants''"
      and rd = no_lists and fault = None]
  by (auto simp add: in_options)

section \<open>The worker: the upsert\<close>

lemma increment_vote_raises:
  "increment_vote fault c choice = (Some e, c') \<Longrightarrow> votes c' = votes c"
  by (auto simp: increment_vote_def execute_def commit_def Let_def split: option.splits sum.splits)

lemma increment_vote_returns:
  assumes "increment_vote fault c choice = (None, c')"
  shows "\<exists>t. votes c = Some t \<and> tally t choice < INTEGER_MAX \<and>
             votes c' = Some (t(choice \<mapsto> tally t choice + 1))"
proof (cases "votes c")
  case None
  with assms show ?thesis
    by (simp add: increment_vote_def execute_def commit_def Let_def split: option.splits)
next
  case (Some t)
  with assms show ?thesis
    by (auto simp: increment_vote_def execute_def commit_def Let_def tally_def INTEGER_MAX_def
        split: option.splits if_splits)
qed

lemma ensure_table_rows: "rows (snd (ensure_table fault c)) = rows c"
  by (cases "votes c")
    (simp_all add: ensure_table_def execute_def commit_def rows_def Let_def split: option.splits)

text \<open>
  C2, as the statement behaves. \<open>increment_vote\<close> on a connection whose relation
  exists and that lets the statement through: the worker has issued exactly one
  statement more, the insert-or-increment for the option, which the server carries
  out; no row of another option changes; a missing row appears with count 1; a row
  whose count is below 2147483647 has its count raised by exactly 1; at 2147483647 the
  statement fails with "integer out of range" and the row keeps its count.
\<close>

theorem increment_vote_upsert:
  assumes "votes c = Some t"
  shows "\<exists>t'. votes (snd (increment_vote None c choice)) = Some t' \<and>
           (\<forall>opt. opt \<noteq> choice \<longrightarrow> t' opt = t opt) \<and>
           issued (snd (increment_vote None c choice)) =
             issued c @ [INSERT_ON_CONFLICT_UPDATE choice] \<and>
           (case t choice of
              None \<Rightarrow> fst (increment_vote None c choice) = None \<and> t' choice = Some 1
            | Some n \<Rightarrow>
                if n < 2147483647
                then fst (increment_vote None c choice) = None \<and> t' choice = Some (n + 1)
                else fst (increment_vote None c choice) =
                       Some (Exn ''NumericValueOutOfRange'' ''integer out of range'') \<and>
                     t' choice = Some n)"
  using assms
  by (simp add: increment_vote_def execute_def commit_def Let_def INTEGER_MAX_def
      split: option.splits)

theorem increment_vote_upsert_witness:
  "fst (increment_vote None \<lparr>votes = Some (no_rows(dogs \<mapsto> 7)), issued = []\<rparr> cats) = None \<and>
   votes (snd (increment_vote None \<lparr>votes = Some (no_rows(dogs \<mapsto> 7)), issued = []\<rparr> cats)) =
     Some (no_rows(dogs \<mapsto> 7, cats \<mapsto> 1)) \<and>
   fst (increment_vote None \<lparr>votes = Some (no_rows(dogs \<mapsto> 7)), issued = []\<rparr> dogs) = None \<and>
   votes (snd (increment_vote None \<lparr>votes = Some (no_rows(dogs \<mapsto> 7)), issued = []\<rparr> dogs)) =
     Some (no_rows(dogs \<mapsto> 8))"
  using increment_vote_upsert [where c = "\<lparr>votes = Some (no_rows(dogs \<mapsto> 7)), issued = []\<rparr>"
      and t = "no_rows(dogs \<mapsto> 7)" and choice = cats]
    increment_vote_upsert [where c = "\<lparr>votes = Some (no_rows(dogs \<mapsto> 7)), issued = []\<rparr>"
      and t = "no_rows(dogs \<mapsto> 7)" and choice = dogs]
  by (auto simp add: no_rows_def cats_def dogs_def fun_eq_iff)

text \<open>
  C2 as stated speaks of every table state. In the state where the row of \<open>cats\<close>
  holds the largest INTEGER the upsert raises and the count is not incremented.
\<close>

theorem increment_vote_overflow_counterexample:
  "increment_vote None \<lparr>votes = Some (no_rows(cats \<mapsto> 2147483647)), issued = []\<rparr> cats =
     (Some (Exn ''NumericValueOutOfRange'' ''integer out of range''),
      \<lparr>votes = Some (no_rows(cats \<mapsto> 2147483647)),
       issued = [INSERT_ON_CONFLICT_UPDATE cats]\<rparr>)"
  by (simp add: increment_vote_def execute_def commit_def Let_def INTEGER_MAX_def)

section \<open>The worker: one pass of the loop\<close>

text \<open>What one completed pass of the loop can have done: it reported an exception and
  left the rows alone, it discarded a value that is not an option, or it tallied a vote.\<close>

lemma iteration_cases [consumes 1, case_names failed discarded tallied]:
  assumes it: "iteration ev w = Some w'"
  obtains
    e where "printed w' = printed w @ [Error_processing_vote e]" and "votes (db w') = votes (db w)"
  | x where "store w ''votes'' = store w' ''votes'' @ [x]" and "x \<notin> set options"
      and "printed w' = printed w" and "db w' = db w"
  | choice t where "store w ''votes'' = store w' ''votes'' @ [choice]" and "choice \<in> set options"
      and "printed w' = printed w @ [Counted choice]" and "votes (db w) = Some t"
      and "tally t choice < INTEGER_MAX"
      and "votes (db w') = Some (t(choice \<mapsto> tally t choice + 1))"
proof (cases "redis_fault ev")
  case (Some e)
  with it have "w' = w\<lparr>store := store w, printed := printed w @ [Error_processing_vote e]\<rparr>"
    by (simp add: iteration_def brpop_def)
  then show ?thesis by (intro that(1) [of e]) simp_all
next
  case None
  show ?thesis
  proof (cases "store w ''votes'' = []")
    case True
    with None it show ?thesis by (simp add: iteration_def brpop_def)
  next
    case False
    define val where "val = last (store w ''votes'')"
    define rd where "rd = (store w)(''votes'' := butlast (store w ''votes''))"
    from False have q: "store w ''votes'' = rd ''votes'' @ [val]"
      by (simp add: val_def rd_def)
    from None False have pop: "brpop (redis_fault ev) (store w) ''votes'' = (Inr (Some (encode ''votes'', val)), rd)"
      by (simp add: brpop_def val_def rd_def)
    show ?thesis
    proof (cases "decode val")
      case (Inl e)
      with pop it have "w' = w\<lparr>store := rd, printed := printed w @ [Error_processing_vote e]\<rparr>"
        by (simp add: iteration_def)
      then show ?thesis by (intro that(1) [of e]) simp_all
    next
      case (Inr choice)
      then have choice: "choice = val" by (rule decode_Inr)
      show ?thesis
      proof (cases "choice \<in> set options")
        case False
        with pop Inr it have "w' = w\<lparr>store := rd\<rparr>"
          by (simp add: iteration_def)
        with q False choice show ?thesis by (intro that(2) [of val]) simp_all
      next
        case True
        obtain res c where inc: "increment_vote (db_fault ev) (db w) choice = (res, c)"
          by (cases "increment_vote (db_fault ev) (db w) choice")
        show ?thesis
        proof (cases res)
          case (Some e)
          with pop Inr True inc it
          have "w' = w\<lparr>store := rd, db := c, printed := printed w @ [Error_processing_vote e]\<rparr>"
            by (simp add: iteration_def)
          moreover from inc Some have "votes c = votes (db w)"
            by (auto dest: increment_vote_raises)
          ultimately show ?thesis by (intro that(1) [of e]) simp_all
        next
          case None
          with pop Inr True inc it
          have w': "w' = w\<lparr>store := rd, db := c, printed := printed w @ [Counted choice]\<rparr>"
            by (simp add: iteration_def)
          from inc None obtain t where "votes (db w) = Some t" "tally t choice < INTEGER_MAX"
            "votes c = Some (t(choice \<mapsto> tally t choice + 1))"
            by (auto dest: increment_vote_returns)
          with w' q True choice show ?thesis by (intro that(3) [of choice t]) simp_all
        qed
      qed
    qed
  qed
qed

text \<open>
  C4. The value at the tail of \<open>votes\<close> decodes to something that is not an option:
  the pass of the loop that pops it completes, removes it from the list, leaves the
  connection (so the whole table) as it was and prints nothing, whatever the database
  would have done.
\<close>

theorem iteration_discards_invalid:
  assumes "store w ''votes'' = q @ [val]" and "decode val = Inr choice"
    and "choice \<notin> set options" and "redis_fault ev = None"
  shows "\<exists>w'. iteration ev w = Some w' \<and> db w' = db w \<and> printed w' = printed w \<and>
              store w' = (store w)(''votes'' := q)"
  using assms by (simp add: iteration_def brpop_def)

theorem iteration_discards_invalid_witness:
  "decode ''elephants'' = Inr ''elephants'' \<and> ''elephants'' \<notin> set options \<and>
   iteration quiet
     \<lparr>store = no_lists(''votes'' := [''cats'', ''elephants'']),
      db = \<lparr>votes = Some no_rows, issued = []\<rparr>, printed = []\<rparr> =
   Some \<lparr>store = no_lists(''votes'' := [''cats'']),
      db = \<lparr>votes = Some no_rows, issued = []\<rparr>, printed = []\<rparr>"
  using iteration_discards_invalid [where ev = quiet and q = "[''cats'']" and val = "''elephants''"
      and choice = "''elephants''"
      and w = "\<lparr>store = no_lists(''votes'' := [''cats'', ''elephants'']),
      db = \<lparr>votes = Some no_rows, issued = []\<rparr>, printed = []\<rparr>"]
  by (auto simp add: in_options quiet_def decode_def utf8_valid_def utf8_lead_def)

section \<open>The worker: the rows after any number of passes\<close>

lemma main_loop_invariant:
  assumes "P w" and "\<And>ev u u'. P u \<Longrightarrow> iteration ev u = Some u' \<Longrightarrow> P u'"
  shows "P (main_loop evs w)"
  using assms(1)
proof (induction evs arbitrary: w)
  case Nil
  then show ?case by simp
next
  case (Cons ev evs)
  then show ?case
    by (cases "iteration ev w") (auto intro: assms(2))
qed

lemma iteration_rows_valid:
  assumes "iteration ev w = Some w'"
    and "\<forall>opt n. rows (db w) opt = Some n \<longrightarrow> opt \<in> set options \<and> 1 \<le> n"
  shows "\<forall>opt n. rows (db w') opt = Some n \<longrightarrow> opt \<in> set options \<and> 1 \<le> n"
  using assms(1)
proof (cases rule: iteration_cases)
  case (failed e)
  with assms(2) show ?thesis by (simp add: rows_def)
next
  case (discarded x)
  with assms(2) show ?thesis by simp
next
  case (tallied choice t)
  from assms(2) tallied(4) have inv: "\<And>opt n. t opt = Some n \<Longrightarrow> opt \<in> set options \<and> 1 \<le> n"
    by (simp add: rows_def)
  have "0 \<le> tally t choice"
  proof (cases "t choice")
    case None
    then show ?thesis by (simp add: tally_def)
  next
    case (Some n)
    with inv [of choice n] show ?thesis by (simp add: tally_def)
  qed
  with inv tallied show ?thesis
    by (auto simp: rows_def)
qed

text \<open>
  C10. From the empty table, after any number of passes of the loop on any queue
  contents and with any failures of the two connections, every row is for one of the
  two options and has a count of at least 1.
\<close>

theorem rows_valid_options:
  assumes "votes (db w) = Some no_rows"
  shows "\<forall>opt n. rows (db (main_loop evs w)) opt = Some n \<longrightarrow> opt \<in> set options \<and> 1 \<le> n"
proof (rule main_loop_invariant)
  from assms show "\<forall>opt n. rows (db w) opt = Some n \<longrightarrow> opt \<in> set options \<and> 1 \<le> n"
    by (simp add: rows_def no_rows_def)
next
  fix ev u u'
  assume "\<forall>opt n. rows (db u) opt = Some n \<longrightarrow> opt \<in> set options \<and> 1 \<le> n"
    and "iteration ev u = Some u'"
  then show "\<forall>opt n. rows (db u') opt = Some n \<longrightarrow> opt \<in> set options \<and> 1 \<le> n"
    by (rule iteration_rows_valid [rotated])
qed

theorem rows_valid_options_witness:
  "votes (db (worker_on [''cats'', ''elephants'', ''dogs'', ''cats''] fresh_db)) = Some no_rows \<and>
   rows (db (main_loop [quiet, quiet, quiet, quiet]
     (worker_on [''cats'', ''elephants'', ''dogs'', ''cats''] fresh_db))) ''dogs'' = Some 1 \<and>
   ''dogs'' \<in> set options \<and>
   rows (db (main_loop [quiet, quiet, quiet, quiet]
     (worker_on [''cats'', ''elephants'', ''dogs'', ''cats''] fresh_db))) ''elephants'' = None"
  using rows_valid_options [where w = "worker_on [''cats'', ''elephants'', ''dogs'', ''cats''] fresh_db"
      and evs = "[quiet, quiet, quiet, quiet]"]
  by (simp add: run_simps)

text \<open>One operation of the worker either leaves the rows and the number of
  \<open>counted\<close> lines alone or has tallied one vote.\<close>

lemma apply_op_cases [case_names same tallied]:
  obtains "rows (db (apply_op w op)) = rows (db w)"
      and "\<And>opt. count_list (printed (apply_op w op)) (Counted opt) =
             count_list (printed w) (Counted opt)"
  | choice where "printed (apply_op w op) = printed w @ [Counted choice]"
      and "rows (db (apply_op w op)) = (rows (db w))(choice \<mapsto> tally (rows (db w)) choice + 1)"
proof (cases op)
  case (Ensure_table fault)
  then show ?thesis
    by (intro that(1)) (simp_all add: ensure_table_rows)
next
  case (Iteration ev)
  show ?thesis
  proof (cases "iteration ev w")
    case None
    with Iteration show ?thesis by (intro that(1)) simp_all
  next
    case (Some w')
    with Iteration have eq: "apply_op w op = w'" by simp
    from Some show ?thesis
    proof (cases rule: iteration_cases)
      case (failed e)
      with eq show ?thesis by (intro that(1)) (simp_all add: rows_def)
    next
      case (discarded x)
      with eq show ?thesis by (intro that(1)) simp_all
    next
      case (tallied choice t)
      with eq show ?thesis by (intro that(2) [of choice]) (simp_all add: rows_def)
    qed
  qed
qed

lemma apply_op_rows_mono:
  assumes "rows (db w) opt = Some n"
  shows "\<exists>n'. rows (db (apply_op w op)) opt = Some n' \<and> n \<le> n'"
proof (cases rule: apply_op_cases [of w op])
  case same
  with assms show ?thesis by simp
next
  case (tallied choice)
  with assms show ?thesis by (auto simp add: tally_def)
qed

lemma apply_op_counted_mono:
  "count_list (printed w) (Counted opt) \<le> count_list (printed (apply_op w op)) (Counted opt)"
  by (cases rule: apply_op_cases [of w op]) simp_all

lemma apply_op_counted_row:
  assumes "count_list (printed w) (Counted opt) < count_list (printed (apply_op w op)) (Counted opt)"
  shows "rows (db (apply_op w op)) opt \<noteq> None"
proof (cases rule: apply_op_cases [of w op])
  case same
  with assms show ?thesis by simp
next
  case (tallied choice)
  with assms show ?thesis by (simp split: if_splits)
qed

lemma apply_op_tally:
  "tally (rows (db (apply_op w op))) opt - tally (rows (db w)) opt =
     int (count_list (printed (apply_op w op)) (Counted opt)) -
     int (count_list (printed w) (Counted opt))"
proof (cases rule: apply_op_cases [of w op])
  case same
  then show ?thesis by simp
next
  case (tallied choice)
  then show ?thesis by (simp add: tally_def)
qed

lemma run_ops_rows_mono:
  "rows (db w) opt = Some n \<Longrightarrow> \<exists>n'. rows (db (run_ops w ops)) opt = Some n' \<and> n \<le> n'"
  unfolding run_ops_def
proof (induction ops arbitrary: w n)
  case Nil
  then show ?case by simp
next
  case (Cons op ops)
  from apply_op_rows_mono [OF Cons.prems, of op] obtain m
    where m: "rows (db (apply_op w op)) opt = Some m" "n \<le> m" by blast
  from Cons.IH [OF m(1)] obtain n'
    where "rows (db (foldl apply_op (apply_op w op) ops)) opt = Some n'" "m \<le> n'" by blast
  with m(2) show ?case by auto
qed

lemma run_ops_counted_mono:
  "count_list (printed w) (Counted opt) \<le> count_list (printed (run_ops w ops)) (Counted opt)"
  unfolding run_ops_def
proof (induction ops arbitrary: w)
  case Nil
  show ?case by simp
next
  case (Cons op ops)
  from apply_op_counted_mono [of w opt op] Cons.IH [of "apply_op w op"]
  show ?case by simp
qed

lemma run_ops_counted_row:
  "count_list (printed w) (Counted opt) < count_list (printed (run_ops w ops)) (Counted opt) \<Longrightarrow>
   rows (db (run_ops w ops)) opt \<noteq> None"
proof (induction ops arbitrary: w)
  case Nil
  then show ?case by (simp add: run_ops_def)
next
  case (Cons op ops)
  have unfold: "run_ops w (op # ops) = run_ops (apply_op w op) ops"
    by (simp add: run_ops_def)
  show ?case
  proof (cases "count_list (printed w) (Counted opt) < count_list (printed (apply_op w op)) (Counted opt)")
    case True
    then have "rows (db (apply_op w op)) opt \<noteq> None" by (rule apply_op_counted_row)
    then obtain m where "rows (db (apply_op w op)) opt = Some m" by blast
    from run_ops_rows_mono [OF this, of ops] unfold show ?thesis by auto
  next
    case False
    with apply_op_counted_mono [of w opt op]
    have "count_list (printed (apply_op w op)) (Counted opt) = count_list (printed w) (Counted opt)"
      by simp
    with Cons.prems unfold
    have "count_list (printed (apply_op w op)) (Counted opt)
            < count_list (printed (run_ops (apply_op w op) ops)) (Counted opt)"
      by simp
    from Cons.IH [OF this] unfold show ?thesis by simp
  qed
qed

lemma run_ops_tally:
  "tally (rows (db (run_ops w ops))) opt - tally (rows (db w)) opt =
     int (count_list (printed (run_ops w ops)) (Counted opt)) -
     int (count_list (printed w) (Counted opt))"
  unfolding run_ops_def
proof (induction ops arbitrary: w)
  case Nil
  show ?case by simp
next
  case (Cons op ops)
  from apply_op_tally [of w op opt] Cons.IH [of "apply_op w op"]
  show ?case by simp
qed

text \<open>
  C8. For every sequence of operations of the worker (\<open>ensure_table\<close> and passes of
  the loop, on any queue contents, with any failures) from any state: a row that
  exists still exists afterwards with a count that is not smaller; an option for
  which a vote has been committed during the sequence (one more \<open>counted\<close> line) has
  a row afterwards; and with a missing row read as count 0, the count of every option
  has grown by exactly the number of votes committed for it.
\<close>

theorem counts_monotone:
  "(\<forall>opt n. rows (db w) opt = Some n \<longrightarrow>
      (\<exists>n'. rows (db (run_ops w ops)) opt = Some n' \<and> n \<le> n')) \<and>
   (\<forall>opt. count_list (printed w) (Counted opt) < count_list (printed (run_ops w ops)) (Counted opt) \<longrightarrow>
      rows (db (run_ops w ops)) opt \<noteq> None) \<and>
   (\<forall>opt. tally (rows (db (run_ops w ops))) opt - tally (rows (db w)) opt =
      int (count_list (printed (run_ops w ops)) (Counted opt)) -
      int (count_list (printed w) (Counted opt)))"
  using run_ops_rows_mono [of w _ _ ops] run_ops_counted_row [of w _ ops] run_ops_tally [of w ops]
  by blast

theorem counts_monotone_witness:
  "rows (db (worker_on [''dogs'', ''cats''] \<lparr>votes = Some (no_rows(cats \<mapsto> 5)), issued = []\<rparr>)) cats = Some 5 \<and>
   rows (db (run_ops (worker_on [''dogs'', ''cats''] \<lparr>votes = Some (no_rows(cats \<mapsto> 5)), issued = []\<rparr>)
     [Ensure_table None, Iteration quiet, Iteration quiet])) cats = Some 6 \<and>
   rows (db (run_ops (worker_on [''dogs'', ''cats''] \<lparr>votes = Some (no_rows(cats \<mapsto> 5)), issued = []\<rparr>)
     [Ensure_table None, Iteration quiet, Iteration quiet])) dogs = Some 1 \<and>
   printed (run_ops (worker_on [''dogs'', ''cats''] \<lparr>votes = Some (no_rows(cats \<mapsto> 5)), issued = []\<rparr>)
     [Ensure_table None, Iteration quiet, Iteration quiet]) = [Counted cats, Counted dogs]"
  using counts_monotone [where w = "worker_on [''dogs'', ''cats''] \<lparr>votes = Some (no_rows(cats \<mapsto> 5)), issued = []\<rparr>"
      and ops = "[Ensure_table None, Iteration quiet, Iteration quiet]"]
  by (simp add: run_simps)

section \<open>The worker: counting the votes of a queue\<close>








section \<open>The two programs on one queue: order\<close>

lemma step_Push:
  "v \<in> set options \<Longrightarrow> step (ps, rd) (Push v) = (ps, rd(''votes'' := v # rd ''votes''))"
  by (simp add: vote_def lpush_def encode_def)

lemma step_order:
  assumes "\<forall>v. ev = Push v \<longrightarrow> v \<in> set options"
  shows "fst (step (ps, rd) ev) @ rev (snd (step (ps, rd) ev) ''votes'') =
         ps @ rev (rd ''votes'') @ pushed [ev]"
proof (cases ev)
  case (Push v)
  with assms show ?thesis by (simp add: step_Push del: step.simps)
next
  case Pop
  show ?thesis
  proof (cases "rd ''votes''" rule: rev_cases)
    case Nil
    with Pop show ?thesis by (simp add: brpop_def)
  next
    case (snoc q x)
    with Pop show ?thesis by (simp add: brpop_def)
  qed
qed

lemma pushed_Cons: "pushed (ev # evs) = pushed [ev] @ pushed evs"
  by (cases ev) simp_all

lemma foldl_step_order:
  assumes "\<forall>v. Push v \<in> set evs \<longrightarrow> v \<in> set options"
  shows "fst (foldl step (ps, rd) evs) @ rev (snd (foldl step (ps, rd) evs) ''votes'') =
         ps @ rev (rd ''votes'') @ pushed evs"
  using assms
proof (induction evs arbitrary: ps rd)
  case Nil
  show ?case by simp
next
  case (Cons ev evs)
  obtain ps' rd' where s: "step (ps, rd) ev = (ps', rd')" by (cases "step (ps, rd) ev")
  from Cons.prems have "\<forall>v. ev = Push v \<longrightarrow> v \<in> set options" by simp
  from step_order [OF this, of ps rd] s
  have one: "ps' @ rev (rd' ''votes'') = ps @ rev (rd ''votes'') @ pushed [ev]" by simp
  from Cons.prems have "\<forall>v. Push v \<in> set evs \<longrightarrow> v \<in> set options" by simp
  from Cons.IH [OF this, of ps' rd'] s one show ?case
    by (simp add: pushed_Cons [of ev evs])
qed

text \<open>
  C5. The intake pushes at the head of \<open>votes\<close> and the worker pops at its tail, so
  with one worker the queue is first in, first out: what was in the list at the start
  (oldest at the tail) followed by the votes pushed, in the order of submission, is
  what the worker has received, in the order it received it, followed by what is still
  in the list. Starting from the empty list, the worker has received an initial
  segment of the votes submitted: no vote overtakes an earlier one.
\<close>

theorem queue_fifo:
  assumes "\<forall>v. Push v \<in> set evs \<longrightarrow> v \<in> set options"
  shows "rev (rd ''votes'') @ pushed evs = fst (run rd evs) @ rev (snd (run rd evs) ''votes'') \<and>
         (rd ''votes'' = [] \<longrightarrow> take (length (fst (run rd evs))) (pushed evs) = fst (run rd evs))"
proof -
  from foldl_step_order [OF assms, of "[]" rd]
  have eq: "rev (rd ''votes'') @ pushed evs = fst (run rd evs) @ rev (snd (run rd evs) ''votes'')"
    by (simp add: run_def)
  moreover have "take (length (fst (run rd evs))) (pushed evs) = fst (run rd evs)"
    if "rd ''votes'' = []"
  proof -
    from eq that have "pushed evs = fst (run rd evs) @ rev (snd (run rd evs) ''votes'')" by simp
    then show ?thesis by (metis append_eq_conv_conj)
  qed
  ultimately show ?thesis by blast
qed

theorem queue_fifo_witness:
  "''cats'' \<in> set options \<and> ''dogs'' \<in> set options \<and>
   pushed [Push ''cats'', Push ''dogs'', Pop, Push ''cats'', Pop] = [''cats'', ''dogs'', ''cats''] \<and>
   fst (run no_lists [Push ''cats'', Push ''dogs'', Pop, Push ''cats'', Pop]) = [''cats'', ''dogs''] \<and>
   snd (run no_lists [Push ''cats'', Push ''dogs'', Pop, Push ''cats'', Pop]) ''votes'' = [''cats'']"
  using queue_fifo [where evs = "[Push ''cats'', Push ''dogs'', Pop, Push ''cats'', Pop]" and rd = no_lists]
  by (simp add: run_simps)

end
